theory Spec2Isabelle
  imports Complex_Main "HOL-Library.AList" "HOL-Library.List_Lexorder" "HOL-Library.Char_ord"
begin

section \<open>Numbers\<close>

text \<open>
  A JavaScript \<^verbatim>\<open>number\<close> is an IEEE-754 binary64 value.  A finite one is a rational, and
  every arithmetic operation returns the exact result rounded to the nearest value with
  a 53-bit significand, ties to the even significand.  That rounding is \<open>f64_round\<close>.
  The exponent is left unbounded: overflow to \<^verbatim>\<open>Infinity\<close>, subnormal results and
  \<^verbatim>\<open>NaN\<close> are outside the model (the aggregation engine assumes finite values).
\<close>

type_synonym number = rat

text \<open>The number of binary digits of a positive integer.\<close>

function bit_length :: "int \<Rightarrow> nat" where
  "bit_length n = (if n \<le> 0 then 0 else Suc (bit_length (n div 2)))"
  by pat_completeness auto
termination
  by (relation "measure nat") auto

declare bit_length.simps [simp del]

definition pow2 :: "int \<Rightarrow> rat" where
  "pow2 e = (if 0 \<le> e then 2 ^ nat e else 1 / 2 ^ nat (- e))"

text \<open>For \<open>0 < x\<close>, \<open>ilog2 x\<close> is the exponent \<open>k\<close> with \<open>2^k \<le> x < 2^(k+1)\<close>.\<close>

definition ilog2 :: "rat \<Rightarrow> int" where
  "ilog2 x = (if 1 \<le> x then int (bit_length \<lfloor>x\<rfloor>) - 1
              else - int (bit_length (\<lceil>1 / x\<rceil> - 1)))"

definition round_half_even :: "rat \<Rightarrow> int" where
  "round_half_even q =
     (let f = \<lfloor>q\<rfloor>; r = q - of_int f
      in if r < 1 / 2 then f
         else if 1 / 2 < r then f + 1
         else if even f then f else f + 1)"

definition f64_round :: "rat \<Rightarrow> number" where
  "f64_round x =
     (if x = 0 then 0
      else let e = ilog2 \<bar>x\<bar> - 52;
               m = round_half_even (\<bar>x\<bar> / pow2 e)
           in sgn x * of_int m * pow2 e)"

definition fadd :: "number \<Rightarrow> number \<Rightarrow> number" where
  "fadd a b = f64_round (a + b)"

definition fsub :: "number \<Rightarrow> number \<Rightarrow> number" where
  "fsub a b = f64_round (a - b)"


text \<open>The divisors of the program are counts and widths that are never zero.\<close>

definition fdiv :: "number \<Rightarrow> number \<Rightarrow> number" where
  "fdiv a b = f64_round (a / b)"

text \<open>A decimal literal of the source denotes the nearest binary64 value.\<close>

definition lit :: "rat \<Rightarrow> number" where
  "lit q = f64_round q"





text \<open>
  The mean as every aggregator computes it: the values are added to an accumulator that
  starts at 0, in batch order, and the sum is divided by their number.
\<close>

definition fsum :: "number list \<Rightarrow> number" where
  "fsum vs = foldl fadd 0 vs"

definition fmean :: "number list \<Rightarrow> number" where
  "fmean vs = fdiv (fsum vs) (of_nat (length vs))"

section \<open>Strings and arrays of the runtime\<close>

fun show_nat :: "nat \<Rightarrow> string" where
  "show_nat n = (if n < 10 then [char_of (48 + n)]
                 else show_nat (n div 10) @ [char_of (48 + n mod 10)])"

declare show_nat.simps [simp del]

definition show_int :: "int \<Rightarrow> string" where
  "show_int i = (if i < 0 then CHR ''-'' # show_nat (nat (- i)) else show_nat (nat i))"

definition padStart :: "nat \<Rightarrow> char \<Rightarrow> string \<Rightarrow> string" where
  "padStart n c s = replicate (n - length s) c @ s"

text \<open>
  \<^verbatim>\<open>a.localeCompare(b)\<close>, as the order of the code units; on the bucket keys, which are
  digits separated at fixed places, the collation of the runtime agrees with it.
\<close>

definition localeCompare :: "string \<Rightarrow> string \<Rightarrow> number" where
  "localeCompare a b = (if a < b then - 1 else if a = b then 0 else 1)"

text \<open>
  \<^verbatim>\<open>Array.prototype.sort(compare)\<close> is a stable sort: \<open>a\<close> stays before \<open>b\<close> unless
  \<open>compare a b\<close> is positive.
\<close>

fun js_insert :: "('a \<Rightarrow> 'a \<Rightarrow> number) \<Rightarrow> 'a \<Rightarrow> 'a list \<Rightarrow> 'a list" where
  "js_insert cmp x [] = [x]"
| "js_insert cmp x (y # ys) = (if cmp x y \<le> 0 then x # y # ys else y # js_insert cmp x ys)"

definition js_sort :: "('a \<Rightarrow> 'a \<Rightarrow> number) \<Rightarrow> 'a list \<Rightarrow> 'a list" where
  "js_sort cmp xs = foldr (js_insert cmp) xs []"



section \<open>Measurement rows and bucket keys\<close>

text \<open>
  \<^verbatim>\<open>new Date(row.observed_at)\<close> is read through its UTC getters only; a row carries the
  values of those getters. \<^verbatim>\<open>getUTCMonth\<close> counts from 0.
\<close>

record Date =
  getUTCFullYear :: int
  getUTCMonth :: nat
  getUTCDate :: nat
  getUTCHours :: nat
  getUTCMinutes :: nat

record AnalyticsDataRow =
  observed_at :: Date
  station_code :: string
  variable_code :: string
  row_value :: number

datatype TimeGranularity = Hour | Day | Month | Year


definition getBucketKey :: "Date \<Rightarrow> TimeGranularity \<Rightarrow> string" where
  "getBucketKey dt granularity =
     (let year_s = show_int (getUTCFullYear dt);
          month_s = padStart 2 CHR ''0'' (show_nat (getUTCMonth dt + 1));
          day_s = padStart 2 CHR ''0'' (show_nat (getUTCDate dt));
          hour_s = padStart 2 CHR ''0'' (show_nat (getUTCHours dt))
      in if granularity = Year then year_s
         else if granularity = Month then year_s @ ''-'' @ month_s
         else if granularity = Hour then year_s @ ''-'' @ month_s @ ''-'' @ day_s @ '' '' @ hour_s @ '':00''
         else year_s @ ''-'' @ month_s @ ''-'' @ day_s)"

text \<open>The accumulator \<^verbatim>\<open>{ sum, count }\<close> of every grouping pass.\<close>

record accumulator =
  sum_acc :: number
  count_acc :: nat

definition accumulate :: "accumulator option \<Rightarrow> number \<Rightarrow> accumulator" where
  "accumulate found v =
     (let item = (case found of Some a \<Rightarrow> a | None \<Rightarrow> \<lparr>sum_acc = 0, count_acc = 0\<rparr>)
      in \<lparr>sum_acc = fadd (sum_acc item) v, count_acc = count_acc item + 1\<rparr>)"

definition average :: "accumulator \<Rightarrow> number" where
  "average a = fdiv (sum_acc a) (of_nat (count_acc a))"

section \<open>Temporal Aggregator\<close>

text \<open>
  A \<^verbatim>\<open>TemporalPoint\<close> is an object with the properties \<^verbatim>\<open>bucket\<close> and \<^verbatim>\<open>overall\<close> and one
  more property for every series key written with \<^verbatim>\<open>point[key] = ...\<close>.  A series key
  that is the string \<^verbatim>\<open>bucket\<close> or \<^verbatim>\<open>overall\<close> writes that property; an assignment of a
  number to \<^verbatim>\<open>__proto__\<close> is ignored by the runtime.
\<close>

datatype jsval = JStr string | JNum number

record TemporalPoint =
  bucket :: jsval
  overall :: number
  series :: "(string \<times> number) list"

definition point_set :: "TemporalPoint \<Rightarrow> string \<Rightarrow> number \<Rightarrow> TemporalPoint" where
  "point_set point key v =
     (if key = ''bucket'' then point\<lparr>bucket := JNum v\<rparr>
      else if key = ''overall'' then point\<lparr>overall := v\<rparr>
      else if key = ''__proto__'' then point
      else point\<lparr>series := AList.update key v (series point)\<rparr>)"

text \<open>
  \<^verbatim>\<open>String(x)\<close>: a string is itself; the decimal form of a number is the runtime's, taken
  as the parameter \<open>toString\<close>.
\<close>

definition js_String :: "(number \<Rightarrow> string) \<Rightarrow> jsval \<Rightarrow> string" where
  "js_String toString x = (case x of JStr s \<Rightarrow> s | JNum n \<Rightarrow> toString n)"

type_synonym seriesBuckets = "(string \<times> accumulator) list"

text \<open>The body of the loop over the rows: \<open>bm\<close> is \<^verbatim>\<open>bucketMap\<close>, \<open>sc\<close> is \<^verbatim>\<open>seriesCounter\<close>.\<close>

definition temporal_row ::
  "TimeGranularity \<Rightarrow> bool \<Rightarrow> (string \<times> seriesBuckets) list \<times> (string \<times> nat) list
     \<Rightarrow> AnalyticsDataRow \<Rightarrow> (string \<times> seriesBuckets) list \<times> (string \<times> nat) list" where
  "temporal_row granularity splitByStation st row =
     (let bm = fst st; sc = snd st;
          bucket_k = getBucketKey (observed_at row) granularity;
          seriesKey = (if splitByStation then station_code row else variable_code row);
          seriesBuckets0 = (case map_of bm bucket_k of Some m \<Rightarrow> m | None \<Rightarrow> []);
          item = accumulate (map_of seriesBuckets0 seriesKey) (row_value row);
          seriesBuckets1 = AList.update seriesKey item seriesBuckets0;
          overall_a = accumulate (map_of seriesBuckets1 ''overall'') (row_value row);
          seriesBuckets2 = AList.update ''overall'' overall_a seriesBuckets1
      in (AList.update bucket_k seriesBuckets2 bm,
          AList.update seriesKey ((case map_of sc seriesKey of Some n \<Rightarrow> n | None \<Rightarrow> 0) + 1) sc))"

text \<open>
  The body of the loop over \<^verbatim>\<open>grouped.entries()\<close>: \<^verbatim>\<open>point[key] = values.sum / values.count\<close>.
  The assignment \<^verbatim>\<open>point.overall = Number(point.overall ?? 0)\<close> that follows the loop
  leaves a number as it is.
\<close>

definition point_assign :: "TemporalPoint \<Rightarrow> string \<times> accumulator \<Rightarrow> TemporalPoint" where
  "point_assign point kv = point_set point (fst kv) (average (snd kv))"

definition make_point :: "string \<times> seriesBuckets \<Rightarrow> TemporalPoint" where
  "make_point e =
     foldl point_assign \<lparr>bucket = JStr (fst e), overall = 0, series = []\<rparr> (snd e)"

record TemporalSeries =
  points :: "TemporalPoint list"
  keys :: "string list"

definition computeTemporalSeries ::
  "(number \<Rightarrow> string) \<Rightarrow> AnalyticsDataRow list \<Rightarrow> TimeGranularity \<Rightarrow> bool \<Rightarrow> TemporalSeries" where
  "computeTemporalSeries toString rows granularity splitByStation =
     (let st = foldl (temporal_row granularity splitByStation) ([], []) rows;
          points_l = js_sort
            (\<lambda>a b. localeCompare (js_String toString (bucket a)) (js_String toString (bucket b)))
            (map make_point (fst st));
          keys_l = map fst (js_sort (\<lambda>a b. fsub (of_nat (snd b)) (of_nat (snd a))) (snd st));
          effectiveKeys = (if splitByStation then keys_l else take 4 keys_l)
      in \<lparr>points = points_l, keys = effectiveKeys\<rparr>)"

section \<open>Categorical Aggregator\<close>

record StationBarPoint =
  station :: string
  avg :: number

definition station_row :: "(string \<times> accumulator) list \<Rightarrow> AnalyticsDataRow \<Rightarrow> (string \<times> accumulator) list" where
  "station_row grouped row =
     AList.update (station_code row)
       (accumulate (map_of grouped (station_code row)) (row_value row)) grouped"

definition station_entries :: "AnalyticsDataRow list \<Rightarrow> StationBarPoint list" where
  "station_entries rows =
     map (\<lambda>e. \<lparr>station = fst e, avg = average (snd e)\<rparr>) (foldl station_row [] rows)"

definition computeStationBars :: "AnalyticsDataRow list \<Rightarrow> StationBarPoint list" where
  "computeStationBars rows = js_sort (\<lambda>a b. fsub (avg b) (avg a)) (station_entries rows)"

text \<open>The variant of the second dashboard ends with \<^verbatim>\<open>.slice(0, 14)\<close>.\<close>

definition computeStationBars_capped :: "AnalyticsDataRow list \<Rightarrow> StationBarPoint list" where
  "computeStationBars_capped rows = take 14 (computeStationBars rows)"

section \<open>Histogram Builder\<close>






section \<open>Heatmap Builder\<close>


definition heat_key :: "string \<Rightarrow> nat \<Rightarrow> string" where
  "heat_key day_s hour_n = day_s @ ''|'' @ show_nat hour_n"






section \<open>Summary and trend\<close>






section \<open>Query Orchestrator\<close>

record DateRange =
  range_from :: "string option"
  range_to :: "string option"

text \<open>The empty string is the only falsy string; \<^verbatim>\<open>from <= to\<close> compares code units.\<close>

definition normalizeDateRange :: "string \<Rightarrow> string \<Rightarrow> DateRange" where
  "normalizeDateRange from_s to_s =
     (if from_s = [] \<or> to_s = []
      then \<lparr>range_from = (if from_s = [] then None else Some from_s),
            range_to = (if to_s = [] then None else Some to_s)\<rparr>
      else if from_s \<le> to_s then \<lparr>range_from = Some from_s, range_to = Some to_s\<rparr>
      else \<lparr>range_from = Some to_s, range_to = Some from_s\<rparr>)"

record AnalyticsSourceOption =
  source_id :: int
  row_count :: int

record AnalyticsQueryRequest =
  source_file_ids :: "int list"
  station_codes :: "string list option"
  date_from :: "string option"
  date_to :: "string option"
  limit :: int

record AnalyticsQueryResponse =
  response_rows :: "AnalyticsDataRow list"
  response_row_count :: nat
  truncated :: bool

record StationLiveSnapshotResponse =
  total :: nat
  latest_observed_at :: "string option"

text \<open>
  The arguments of \<^verbatim>\<open>runAnalysis\<close>, and what the awaited network call settles with: a
  rejection carries the message of the error when the error is an \<^verbatim>\<open>Error\<close>.
\<close>

record RunParams =
  sourceId :: "int option"
  stationCodes :: "string list"
  fromDate :: string
  toDate :: string
  requestedLimit :: int

datatype 'r outcome = Fulfilled 'r | Rejected "string option"

text \<open>
  The state of the component: the \<^verbatim>\<open>useState\<close> cells that the two channels write, the two
  \<^verbatim>\<open>useRef\<close> counters, and \<^verbatim>\<open>filters\<close>, which \<^verbatim>\<open>runAnalysis\<close> reads.
\<close>

record WorkspaceState =
  filters :: "AnalyticsSourceOption list option"
  rows :: "AnalyticsDataRow list"
  error :: "string option"
  loading :: bool
  liveSnapshot :: "StationLiveSnapshotResponse option"
  liveLoading :: bool
  requestIdRef :: nat
  liveRequestIdRef :: nat

definition initial_state :: WorkspaceState where
  "initial_state =
     \<lparr>filters = None, rows = [], error = None, loading = False, liveSnapshot = None,
      liveLoading = False, requestIdRef = 0, liveRequestIdRef = 0\<rparr>"

definition effective_limit :: "AnalyticsSourceOption list option \<Rightarrow> int \<Rightarrow> int \<Rightarrow> int" where
  "effective_limit fs sid requested =
     (let sourceForLimit = (case fs of None \<Rightarrow> None | Some srcs \<Rightarrow> find (\<lambda>src. source_id src = sid) srcs);
          datasetMaxRows = max 100 (case sourceForLimit of Some src \<Rightarrow> row_count src | None \<Rightarrow> requested)
      in max 100 (min requested datasetMaxRows))"

definition build_payload :: "AnalyticsSourceOption list option \<Rightarrow> int \<Rightarrow> RunParams \<Rightarrow> AnalyticsQueryRequest" where
  "build_payload fs sid p =
     (let normalizedRange = normalizeDateRange (fromDate p) (toDate p)
      in \<lparr>source_file_ids = [sid],
          station_codes = (if 0 < length (stationCodes p) then Some (stationCodes p) else None),
          date_from = range_from normalizedRange,
          date_to = range_to normalizedRange,
          limit = effective_limit fs sid (requestedLimit p)\<rparr>)"

text \<open>
  \<^verbatim>\<open>runAnalysis\<close> up to its \<^verbatim>\<open>await\<close>: the request that is sent, with its token, and the
  state after the synchronous part.  Without a source no request is sent.
\<close>

definition runAnalysis_dispatch ::
  "RunParams \<Rightarrow> WorkspaceState \<Rightarrow> (nat \<times> AnalyticsQueryRequest) option \<times> WorkspaceState" where
  "runAnalysis_dispatch p s =
     (case sourceId p of
        None \<Rightarrow> (None, s\<lparr>rows := [], error := Some ''Select a source file to visualize data.''\<rparr>)
      | Some sid \<Rightarrow>
          let payload = build_payload (filters s) sid p;
              requestId = requestIdRef s + 1
          in (Some (requestId, payload),
              s\<lparr>requestIdRef := requestId, loading := True, error := None\<rparr>))"

text \<open>
  \<^verbatim>\<open>runAnalysis\<close> after its \<^verbatim>\<open>await\<close>, run when the call of the request with token
  \<open>requestId\<close> settles: the \<^verbatim>\<open>try\<close> or the \<^verbatim>\<open>catch\<close> block, then \<^verbatim>\<open>finally\<close>.
\<close>

definition runAnalysis_settle ::
  "nat \<Rightarrow> AnalyticsQueryResponse outcome \<Rightarrow> WorkspaceState \<Rightarrow> WorkspaceState" where
  "runAnalysis_settle requestId out s =
     (let s1 =
        (case out of
           Fulfilled response \<Rightarrow>
             if requestId \<noteq> requestIdRef s then s
             else let s2 = s\<lparr>rows := response_rows response\<rparr>
                  in if length (response_rows response) = 0
                     then s2\<lparr>error := Some ''No data for the selected source and filters.''\<rparr>
                     else s2
         | Rejected msg \<Rightarrow>
             if requestId \<noteq> requestIdRef s then s
             else s\<lparr>rows := [],
                    error := Some (case msg of Some m \<Rightarrow> m
                                   | None \<Rightarrow> ''Failed to load analytics data.'')\<rparr>)
      in if requestId = requestIdRef s1 then s1\<lparr>loading := False\<rparr> else s1)"

definition refreshLiveSnapshot_dispatch ::
  "string list \<Rightarrow> WorkspaceState \<Rightarrow> (nat \<times> string list) \<times> WorkspaceState" where
  "refreshLiveSnapshot_dispatch codes s =
     (let requestId = liveRequestIdRef s + 1
      in ((requestId, codes), s\<lparr>liveRequestIdRef := requestId, liveLoading := True\<rparr>))"

definition refreshLiveSnapshot_settle ::
  "nat \<Rightarrow> StationLiveSnapshotResponse outcome \<Rightarrow> WorkspaceState \<Rightarrow> WorkspaceState" where
  "refreshLiveSnapshot_settle requestId out s =
     (let s1 =
        (case out of
           Fulfilled response \<Rightarrow>
             if requestId \<noteq> liveRequestIdRef s then s else s\<lparr>liveSnapshot := Some response\<rparr>
         | Rejected msg \<Rightarrow>
             if requestId \<noteq> liveRequestIdRef s then s else s\<lparr>liveSnapshot := None\<rparr>)
      in if requestId = liveRequestIdRef s1 then s1\<lparr>liveLoading := False\<rparr> else s1)"

text \<open>
  What happens to the component, in the order it happens: calls of the two functions and
  settlements of earlier requests, in any interleaving.
\<close>

datatype event =
    RunAnalysis RunParams
  | AnalysisSettled nat "AnalyticsQueryResponse outcome"
  | RefreshLive "string list"
  | LiveSettled nat "StationLiveSnapshotResponse outcome"

fun step :: "WorkspaceState \<Rightarrow> event \<Rightarrow> WorkspaceState" where
  "step s (RunAnalysis p) = snd (runAnalysis_dispatch p s)"
| "step s (AnalysisSettled requestId out) = runAnalysis_settle requestId out s"
| "step s (RefreshLive codes) = snd (refreshLiveSnapshot_dispatch codes s)"
| "step s (LiveSettled requestId out) = refreshLiveSnapshot_settle requestId out s"

text \<open>The tokens that a sequence of events issues on the main and on the live channel.\<close>

fun issued_main :: "WorkspaceState \<Rightarrow> event list \<Rightarrow> nat list" where
  "issued_main s [] = []"
| "issued_main s (e # es) =
     (case e of
        RunAnalysis p \<Rightarrow>
          (case fst (runAnalysis_dispatch p s) of Some (t, payload) \<Rightarrow> [t] | None \<Rightarrow> [])
      | _ \<Rightarrow> []) @ issued_main (step s e) es"

fun issued_live :: "WorkspaceState \<Rightarrow> event list \<Rightarrow> nat list" where
  "issued_live s [] = []"
| "issued_live s (e # es) =
     (case e of RefreshLive codes \<Rightarrow> [fst (fst (refreshLiveSnapshot_dispatch codes s))] | _ \<Rightarrow> [])
       @ issued_live (step s e) es"

text \<open>The fields of each channel.\<close>

definition main_view :: "WorkspaceState \<Rightarrow> AnalyticsDataRow list \<times> string option \<times> bool \<times> nat" where
  "main_view s = (rows s, error s, loading s, requestIdRef s)"

definition live_view :: "WorkspaceState \<Rightarrow> StationLiveSnapshotResponse option \<times> bool \<times> nat" where
  "live_view s = (liveSnapshot s, liveLoading s, liveRequestIdRef s)"

section \<open>Sample inputs\<close>

definition sample_params :: RunParams where
  "sample_params = \<lparr>sourceId = Some 7, stationCodes = [''S1''], fromDate = ''2024-02-01'',
     toDate = ''2024-01-01'', requestedLimit = 5000\<rparr>"

definition sample_row :: "nat \<Rightarrow> nat \<Rightarrow> string \<Rightarrow> string \<Rightarrow> number \<Rightarrow> AnalyticsDataRow" where
  "sample_row d h st var v =
     \<lparr>observed_at = \<lparr>getUTCFullYear = 2024, getUTCMonth = 0, getUTCDate = d, getUTCHours = h,
        getUTCMinutes = 0\<rparr>, station_code = st, variable_code = var, row_value = v\<rparr>"

definition sample_response :: "number \<Rightarrow> AnalyticsQueryResponse" where
  "sample_response v = \<lparr>response_rows = [sample_row 1 8 ''S1'' ''PM25'' v], response_row_count = 1,
     truncated = False\<rparr>"

definition loaded_state :: WorkspaceState where
  "loaded_state = initial_state\<lparr>rows := response_rows (sample_response 30), requestIdRef := 3\<rparr>"

definition sample_state :: WorkspaceState where
  "sample_state = initial_state\<lparr>filters := Some [\<lparr>source_id = 3, row_count = 90000\<rparr>,
      \<lparr>source_id = 7, row_count = 2500\<rparr>]\<rparr>"

definition sample_payload :: AnalyticsQueryRequest where
  "sample_payload = \<lparr>source_file_ids = [7], station_codes = Some [''S1''],
     date_from = Some ''2024-01-01'', date_to = Some ''2024-02-01'', limit = 2500\<rparr>"


definition small_batch :: "AnalyticsDataRow list" where
  "small_batch = [sample_row 1 8 ''S1'' ''PM25'' 10, sample_row 1 9 ''S1'' ''PM25'' 20,
     sample_row 1 8 ''S2'' ''PM25'' 30]"



definition sample_toString :: "number \<Rightarrow> string" where
  "sample_toString n = show_int \<lfloor>n\<rfloor>"


definition ties_batch :: "AnalyticsDataRow list" where
  "ties_batch = [sample_row 1 8 ''S1'' ''PM25'' 10, sample_row 1 9 ''S2'' ''PM25'' 30,
     sample_row 2 8 ''S3'' ''PM25'' 10, sample_row 2 9 ''S1'' ''PM25'' 10]"

definition overall_batch :: "AnalyticsDataRow list" where
  "overall_batch = [sample_row 1 8 ''overall'' ''PM25'' 10, sample_row 1 9 ''S1'' ''PM25'' 40]"

section \<open>The rounding keeps the sign\<close>

lemma bit_length_bounds:
  "0 < n \<Longrightarrow> 2 ^ (bit_length n - 1) \<le> n \<and> n < 2 ^ bit_length n"
proof (induction n rule: bit_length.induct)
  case (1 n)
  have bl: "bit_length n = Suc (bit_length (n div 2))"
    using "1.prems" by (simp add: bit_length.simps [of n])
  show ?case
  proof (cases "n div 2 \<le> 0")
    case True
    with "1.prems" have "n = 1" by linarith
    then show ?thesis by (simp add: bit_length.simps [of 1] bit_length.simps [of 0])
  next
    case False
    then have pos: "0 < n div 2" by simp
    have ih: "2 ^ (bit_length (n div 2) - 1) \<le> n div 2 \<and> n div 2 < 2 ^ bit_length (n div 2)"
      using "1.IH" "1.prems" pos by simp
    have "0 < bit_length (n div 2)"
      using pos by (simp add: bit_length.simps [of "n div 2"])
    then obtain k where k: "bit_length (n div 2) = Suc k" by (cases "bit_length (n div 2)") auto
    define q where "q = (2::int) ^ k"
    have ihq: "q \<le> n div 2 \<and> n div 2 < 2 * q" using ih k by (simp add: q_def)
    have lo: "2 ^ Suc k \<le> n" using ihq unfolding power_Suc q_def [symmetric] by linarith
    have hi: "n < 2 ^ Suc (Suc k)" using ihq unfolding power_Suc q_def [symmetric] by linarith
    show ?thesis using lo hi by (simp add: bl k)
  qed
qed

lemma pow2_pos: "0 < pow2 e"
  by (simp add: pow2_def)

lemma pow2_add: "pow2 (a + b) = pow2 a * pow2 b"
proof -
  have "pow2 e = 2 powi e" for e
    by (simp add: pow2_def power_int_def field_simps)
  then show ?thesis by (simp add: power_int_add)
qed

lemma ilog2_bounds:
  assumes "0 < x"
  shows "pow2 (ilog2 x) \<le> x \<and> x < pow2 (ilog2 x + 1)"
proof (cases "1 \<le> x")
  case True
  define n where "n = \<lfloor>x\<rfloor>"
  have npos: "0 < n" using True by (simp add: n_def)
  have fl: "of_int n \<le> x \<and> x < of_int n + 1"
    unfolding n_def by linarith
  from bit_length_bounds [OF npos] obtain k where k: "bit_length n = Suc k"
    and lo: "2 ^ k \<le> n" and hi: "n < 2 ^ Suc k"
    by (cases "bit_length n") (auto simp: bit_length.simps [of n] npos)
  have il: "ilog2 x = int k" using True by (simp add: ilog2_def n_def [symmetric] k)
  have "(2::rat) ^ k \<le> of_int n"
    using lo by (metis of_int_le_iff of_int_numeral of_int_power)
  then have a': "2 ^ k \<le> x" using fl by linarith
  have a: "pow2 (ilog2 x) \<le> x" by (simp add: il pow2_def a')
  have "n + 1 \<le> 2 ^ Suc k" using hi by simp
  then have "(of_int (n + 1) :: rat) \<le> of_int (2 ^ Suc k)" by (simp only: of_int_le_iff)
  then have "(of_int n :: rat) + 1 \<le> 2 ^ Suc k" by simp
  then have b': "x < 2 ^ Suc k" using fl by linarith
  have b: "x < pow2 (ilog2 x + 1)" using b' by (simp add: il pow2_def nat_add_distrib)
  show ?thesis using a b by simp
next
  case False
  then have x1: "x < 1" by simp
  define c where "c = \<lceil>1 / x\<rceil>"
  have inv: "1 < 1 / x" using assms x1 by simp
  have c2: "2 \<le> c" using inv by (simp add: c_def)
  have cb: "of_int c - 1 < 1 / x \<and> 1 / x \<le> of_int c"
    unfolding c_def by linarith
  define n where "n = c - 1"
  have npos: "0 < n" using c2 by (simp add: n_def)
  have cn: "c = n + 1" by (simp add: n_def)
  from bit_length_bounds [OF npos] obtain k where k: "bit_length n = Suc k"
    and lo: "2 ^ k \<le> n" and hi: "n < 2 ^ Suc k"
    by (cases "bit_length n") (auto simp: bit_length.simps [of n] npos)
  have il: "ilog2 x = - int (Suc k)"
    using False by (simp add: ilog2_def c_def [symmetric] n_def [symmetric] k)
  have p1: "pow2 (ilog2 x) = 1 / 2 ^ Suc k" by (simp add: il pow2_def nat_add_distrib)
  have p2: "pow2 (ilog2 x + 1) = 1 / 2 ^ k" by (simp add: il pow2_def)
  have "n + 1 \<le> 2 ^ Suc k" using hi by simp
  then have "(of_int (n + 1) :: rat) \<le> of_int (2 ^ Suc k)" by (simp only: of_int_le_iff)
  then have "(of_int c :: rat) \<le> 2 ^ Suc k" by (simp add: cn)
  then have "1 / x \<le> 2 ^ Suc k" using cb by linarith
  then have "1 \<le> 2 ^ Suc k * x" using assms by (simp add: field_simps)
  then have a: "pow2 (ilog2 x) \<le> x" unfolding p1 by (simp add: field_simps)
  have "(2::rat) ^ k \<le> of_int n"
    using lo by (metis of_int_le_iff of_int_numeral of_int_power)
  then have "(2::rat) ^ k \<le> of_int c - 1" by (simp add: cn)
  then have "2 ^ k < 1 / x" using cb by linarith
  then have "2 ^ k * x < 1" using assms by (simp add: field_simps)
  then have b: "x < pow2 (ilog2 x + 1)" unfolding p2 by (simp add: field_simps)
  show ?thesis using a b by simp
qed

lemma round_half_even_pos: "1 \<le> q \<Longrightarrow> 1 \<le> round_half_even q"
proof -
  assume "1 \<le> q"
  then have "1 \<le> \<lfloor>q\<rfloor>" by simp
  then show ?thesis by (simp add: round_half_even_def Let_def)
qed

lemma f64_round_abs_pos: "x \<noteq> 0 \<Longrightarrow> 0 < of_int (round_half_even (\<bar>x\<bar> / pow2 (ilog2 \<bar>x\<bar> - 52))) * pow2 (ilog2 \<bar>x\<bar> - 52)"
proof -
  assume nz: "x \<noteq> 0"
  then have ax: "0 < \<bar>x\<bar>" by simp
  have "pow2 (ilog2 \<bar>x\<bar>) = pow2 (ilog2 \<bar>x\<bar> - 52) * pow2 52"
    using pow2_add [of "ilog2 \<bar>x\<bar> - 52" 52] by simp
  moreover have "(1::rat) \<le> pow2 52" by (simp add: pow2_def)
  ultimately have "pow2 (ilog2 \<bar>x\<bar> - 52) \<le> pow2 (ilog2 \<bar>x\<bar>)"
    using pow2_pos [of "ilog2 \<bar>x\<bar> - 52"] by (simp add: mult_le_cancel_left1)
  also have "\<dots> \<le> \<bar>x\<bar>" using ilog2_bounds [OF ax] by simp
  finally have "1 \<le> \<bar>x\<bar> / pow2 (ilog2 \<bar>x\<bar> - 52)"
    using pow2_pos [of "ilog2 \<bar>x\<bar> - 52"] by (simp add: field_simps)
  then have "1 \<le> round_half_even (\<bar>x\<bar> / pow2 (ilog2 \<bar>x\<bar> - 52))" by (rule round_half_even_pos)
  then have "(0::rat) < of_int (round_half_even (\<bar>x\<bar> / pow2 (ilog2 \<bar>x\<bar> - 52)))" by simp
  then show ?thesis using pow2_pos [of "ilog2 \<bar>x\<bar> - 52"] by simp
qed

lemma f64_round_sgn: "sgn (f64_round x) = sgn x"
proof (cases "x = 0")
  case True
  then show ?thesis by (simp add: f64_round_def)
next
  case False
  define P where "P = of_int (round_half_even (\<bar>x\<bar> / pow2 (ilog2 \<bar>x\<bar> - 52))) * pow2 (ilog2 \<bar>x\<bar> - 52)"
  have pos: "0 < P" unfolding P_def using False by (rule f64_round_abs_pos)
  have "f64_round x = sgn x * P"
    using False by (simp add: f64_round_def Let_def P_def)
  then have "sgn (f64_round x) = sgn (sgn x) * sgn P" by (simp only: sgn_mult)
  also have "\<dots> = sgn x" using pos by simp
  finally show ?thesis .
qed

lemma f64_round_pos_iff: "0 < f64_round x \<longleftrightarrow> 0 < x"
  using f64_round_sgn [of x] by (metis sgn_greater)



lemma f64_round_zero_iff: "f64_round x = 0 \<longleftrightarrow> x = 0"
  by (metis f64_round_sgn sgn_eq_0_iff)

section \<open>Grouping by a key\<close>

lemma fsum_snoc: "fsum (vs @ [v]) = fadd (fsum vs) v"
  by (simp add: fsum_def)

lemma accumulate_None: "accumulate None v = \<lparr>sum_acc = fsum [v], count_acc = length [v]\<rparr>"
  by (simp add: accumulate_def fsum_def)

lemma accumulate_Some:
  "accumulate (Some \<lparr>sum_acc = fsum vs, count_acc = length vs\<rparr>) v
     = \<lparr>sum_acc = fsum (vs @ [v]), count_acc = length (vs @ [v])\<rparr>"
  by (simp add: accumulate_def fsum_snoc)

lemma average_fmean: "average \<lparr>sum_acc = fsum vs, count_acc = length vs\<rparr> = fmean vs"
  by (simp add: average_def fmean_def)

text \<open>
  One pass that keeps an accumulator per key: after it, a key is present when some row
  has it, with the values of those rows accumulated in batch order.
\<close>

lemma group_lookup:
  "map_of (foldl (\<lambda>g r. AList.update (k r) (accumulate (map_of g (k r)) (row_value r)) g) [] rs) x
     = (if x \<in> k ` set rs
        then Some \<lparr>sum_acc = fsum (map row_value (filter (\<lambda>r. k r = x) rs)),
                   count_acc = length (map row_value (filter (\<lambda>r. k r = x) rs))\<rparr>
        else None)"
proof (induction rs rule: rev_induct)
  case Nil
  show ?case by simp
next
  case (snoc r rs)
  define G where "G = foldl (\<lambda>g r. AList.update (k r) (accumulate (map_of g (k r)) (row_value r)) g) [] rs"
  have step: "foldl (\<lambda>g r. AList.update (k r) (accumulate (map_of g (k r)) (row_value r)) g) [] (rs @ [r])
      = AList.update (k r) (accumulate (map_of G (k r)) (row_value r)) G"
    by (simp add: G_def)
  show ?case
  proof (cases "x = k r")
    case False
    then show ?thesis unfolding step using snoc.IH [folded G_def] by (auto simp: update_conv)
  next
    case True
    show ?thesis
    proof (cases "k r \<in> k ` set rs")
      case False
      then have none: "map_of G (k r) = None" using snoc.IH [folded G_def] True by simp
      have "filter (\<lambda>r'. k r' = k r) rs = []"
        using False by (metis (mono_tags, lifting) filter_False image_eqI)
      then show ?thesis unfolding step using True by (simp add: update_conv none accumulate_None)
    next
      case there: True
      then have some: "map_of G (k r) = Some \<lparr>sum_acc = fsum (map row_value (filter (\<lambda>r'. k r' = k r) rs)),
                   count_acc = length (map row_value (filter (\<lambda>r'. k r' = k r) rs))\<rparr>"
        using snoc.IH [folded G_def] True by simp
      show ?thesis unfolding step using True there by (simp add: update_conv some accumulate_def fsum_snoc)
    qed
  qed
qed

lemma group_keys:
  "map fst (foldl (\<lambda>g r. AList.update (k r) (accumulate (map_of g (k r)) (row_value r)) g) [] rs)
     = rev (remdups (rev (map k rs)))"
proof (induction rs rule: rev_induct)
  case Nil
  show ?case by simp
next
  case (snoc r rs)
  then show ?case by (simp add: update_keys)
qed

section \<open>The stable sort\<close>

lemma js_insert_insort_key:
  assumes "\<And>x y. cmp x y \<le> 0 \<longleftrightarrow> f x \<le> f y"
  shows "js_insert cmp x ys = insort_key f x ys"
  by (induction ys) (simp_all add: assms)

lemma js_sort_sort_key:
  assumes "\<And>x y. cmp x y \<le> 0 \<longleftrightarrow> f x \<le> f y"
  shows "js_sort cmp xs = sort_key f xs"
proof -
  have "js_insert cmp = insort_key f"
    by (intro ext) (rule js_insert_insort_key [OF assms])
  then show ?thesis by (simp add: js_sort_def sort_key_def)
qed

lemma distinct_map_insort_key:
  "distinct (map h (insort_key f x xs)) \<longleftrightarrow> h x \<notin> h ` set xs \<and> distinct (map h xs)"
  by (induction xs) (auto simp: set_insort_key)

lemma distinct_map_sort_key: "distinct (map h (sort_key f xs)) = distinct (map h xs)"
  by (induction xs) (simp_all add: distinct_map_insort_key)

lemma fsub_le_zero_iff: "fsub b a \<le> 0 \<longleftrightarrow> b \<le> a"
  using f64_round_pos_iff [of "b - a"] by (simp add: fsub_def not_less [symmetric])

section \<open>Decimal strings\<close>


lemma digit_code: "k < 10 \<Longrightarrow> of_char (char_of (48 + k :: nat)) = 48 + k"
  by simp










section \<open>The token protocol of the orchestrator\<close>

lemma settle_stale: "t \<noteq> requestIdRef s \<Longrightarrow> runAnalysis_settle t out s = s"
  by (cases out) (simp_all add: runAnalysis_settle_def)

lemma settle_ref: "requestIdRef (runAnalysis_settle t out s) = requestIdRef s"
  by (cases out) (simp_all add: runAnalysis_settle_def Let_def)

lemma live_settle_stale: "t \<noteq> liveRequestIdRef s \<Longrightarrow> refreshLiveSnapshot_settle t out s = s"
  by (cases out) (simp_all add: refreshLiveSnapshot_settle_def)

lemma step_ref_mono: "requestIdRef s \<le> requestIdRef (step s e)"
  by (cases e)
     (auto simp: runAnalysis_dispatch_def runAnalysis_settle_def refreshLiveSnapshot_dispatch_def
        refreshLiveSnapshot_settle_def Let_def split: option.splits outcome.splits)

lemma run_ref_mono: "requestIdRef s \<le> requestIdRef (foldl step s evs)"
proof (induction evs arbitrary: s)
  case Nil
  show ?case by simp
next
  case (Cons e evs)
  have "requestIdRef s \<le> requestIdRef (step s e)" by (rule step_ref_mono)
  also have "\<dots> \<le> requestIdRef (foldl step (step s e) evs)" by (rule Cons.IH)
  finally show ?case by simp
qed

lemma issued_main_bounds:
  "\<forall>t \<in> set (issued_main s evs). requestIdRef s < t \<and> t \<le> requestIdRef (foldl step s evs)"
proof (induction evs arbitrary: s)
  case Nil
  show ?case by simp
next
  case (Cons e evs)
  have later: "\<forall>t \<in> set (issued_main (step s e) evs). requestIdRef s < t \<and> t \<le> requestIdRef (foldl step (step s e) evs)"
    using Cons.IH [of "step s e"] step_ref_mono [of s e] by fastforce
  have now: "\<forall>t \<in> set (case e of
        RunAnalysis p \<Rightarrow>
          (case fst (runAnalysis_dispatch p s) of Some (t, payload) \<Rightarrow> [t] | None \<Rightarrow> [])
      | _ \<Rightarrow> []). requestIdRef s < t \<and> t \<le> requestIdRef (step s e)"
    by (cases e) (auto simp: runAnalysis_dispatch_def Let_def split: option.splits)
  show ?case using later now run_ref_mono [of "step s e" evs] by fastforce
qed

lemma issued_main_sorted: "sorted_wrt (<) (issued_main s evs)"
proof (induction evs arbitrary: s)
  case Nil
  show ?case by simp
next
  case (Cons e evs)
  have now: "\<forall>t \<in> set (case e of
        RunAnalysis p \<Rightarrow>
          (case fst (runAnalysis_dispatch p s) of Some (t, payload) \<Rightarrow> [t] | None \<Rightarrow> [])
      | _ \<Rightarrow> []). t \<le> requestIdRef (step s e)"
    by (cases e) (auto simp: runAnalysis_dispatch_def Let_def split: option.splits)
  have len: "sorted_wrt (<) (case e of
        RunAnalysis p \<Rightarrow>
          (case fst (runAnalysis_dispatch p s) of Some (t, payload) \<Rightarrow> [t] | None \<Rightarrow> [])
      | _ \<Rightarrow> [])"
    by (cases e) (auto split: option.splits)
  show ?case
    using Cons.IH [of "step s e"] now len issued_main_bounds [of "step s e" evs]
    by (fastforce simp: sorted_wrt_append)
qed

lemma step_no_issue:
  "issued_main s [e] = [] \<Longrightarrow> requestIdRef (step s e) = requestIdRef s"
  by (cases e)
     (auto simp: runAnalysis_dispatch_def runAnalysis_settle_def refreshLiveSnapshot_dispatch_def
        refreshLiveSnapshot_settle_def Let_def split: option.splits outcome.splits)

lemma step_issue:
  "issued_main s [e] \<noteq> [] \<Longrightarrow> issued_main s [e] = [requestIdRef (step s e)]"
  by (cases e) (auto simp: runAnalysis_dispatch_def Let_def split: option.splits)

lemma issued_main_Cons: "issued_main s (e # es) = issued_main s [e] @ issued_main (step s e) es"
  by simp

lemma run_no_issue:
  "issued_main s evs = [] \<Longrightarrow> requestIdRef (foldl step s evs) = requestIdRef s"
proof (induction evs arbitrary: s)
  case Nil
  show ?case by simp
next
  case (Cons e evs)
  from Cons.prems have a: "issued_main s [e] = []" and b: "issued_main (step s e) evs = []"
    by (simp_all only: issued_main_Cons [of s e evs] append_is_Nil_conv)
  show ?case using Cons.IH [OF b] step_no_issue [OF a] by simp
qed

lemma issued_main_last:
  "issued_main s evs \<noteq> [] \<Longrightarrow> requestIdRef (foldl step s evs) = last (issued_main s evs)"
proof (induction evs arbitrary: s)
  case Nil
  then show ?case by simp
next
  case (Cons e evs)
  show ?case
  proof (cases "issued_main (step s e) evs = []")
    case False
    have "last (issued_main s (e # evs)) = last (issued_main (step s e) evs)"
      unfolding issued_main_Cons [of s e evs] by (rule last_appendR [OF False])
    then show ?thesis
      using Cons.IH [OF False] by simp
  next
    case True
    with Cons.prems have ne: "issued_main s [e] \<noteq> []"
      by (simp only: issued_main_Cons [of s e evs] append_Nil2 not_False_eq_True)
    have "issued_main s (e # evs) = [requestIdRef (step s e)]"
      using True step_issue [OF ne] by (simp only: issued_main_Cons [of s e evs] append_Nil2)
    then show ?thesis using run_no_issue [OF True] by simp
  qed
qed

lemma run3:
  assumes "sourceId p1 \<noteq> None" "sourceId p2 \<noteq> None" "sourceId p3 \<noteq> None"
  shows "issued_main s [RunAnalysis p1, RunAnalysis p2, RunAnalysis p3]
          = [requestIdRef s + 1, requestIdRef s + 2, requestIdRef s + 3]"
    and "requestIdRef (foldl step s [RunAnalysis p1, RunAnalysis p2, RunAnalysis p3]) = requestIdRef s + 3"
  using assms by (auto simp: runAnalysis_dispatch_def Let_def)

lemma last_Max: "sorted_wrt (<) (xs :: nat list) \<Longrightarrow> xs \<noteq> [] \<Longrightarrow> last xs = Max (set xs)"
proof (induction xs)
  case Nil
  then show ?case by simp
next
  case (Cons x xs)
  show ?case
  proof (cases "xs = []")
    case True
    then show ?thesis by simp
  next
    case False
    have ih: "last xs = Max (set xs)" using Cons False by simp
    have "last xs \<in> set xs" using False by simp
    then have "x < last xs" using Cons.prems by auto
    then show ?thesis using False ih by (simp add: max_def)
  qed
qed

text \<open>
  Claim C1.  On the main channel the tokens are issued in strictly increasing order, and
  the counter holds the greatest token issued so far.  When a request settles, with a
  response or with a failure, a token other than the counter leaves the whole state as it
  was, and the token that equals the counter is applied: the rows become those of the
  response (none after a failure) and the loading flag is cleared.  With tokens 1, 2, 3
  issued and their responses arriving in the order 1, 3, 2, the response of 1 changes
  nothing, the response of 3 sets the rows, and the response of 2 changes nothing.
\<close>

theorem main_channel_token_rule:
  "sorted_wrt (<) (issued_main s evs)
   \<and> (\<forall>t \<in> set (issued_main s evs). requestIdRef s < t)
   \<and> (issued_main s evs \<noteq> [] \<longrightarrow>
        requestIdRef (foldl step s evs) = Max (set (issued_main s evs)))
   \<and> (t \<noteq> requestIdRef s \<longrightarrow> runAnalysis_settle t out s = s)
   \<and> (t = requestIdRef s \<longrightarrow>
        rows (runAnalysis_settle t (Fulfilled r) s) = response_rows r
        \<and> \<not> loading (runAnalysis_settle t (Fulfilled r) s)
        \<and> rows (runAnalysis_settle t (Rejected m) s) = []
        \<and> error (runAnalysis_settle t (Rejected m) s) \<noteq> None
        \<and> \<not> loading (runAnalysis_settle t (Rejected m) s))
   \<and> (requestIdRef s = 0 \<and> sourceId p1 \<noteq> None \<and> sourceId p2 \<noteq> None \<and> sourceId p3 \<noteq> None \<longrightarrow>
        issued_main s [RunAnalysis p1, RunAnalysis p2, RunAnalysis p3] = [1, 2, 3]
        \<and> (let s3 = foldl step s [RunAnalysis p1, RunAnalysis p2, RunAnalysis p3];
                 a = step s3 (AnalysisSettled 1 o1);
                 b = step a (AnalysisSettled 3 (Fulfilled r3));
                 c = step b (AnalysisSettled 2 o2)
             in a = s3 \<and> rows b = response_rows r3 \<and> c = b))"
proof (intro conjI impI)
  show "sorted_wrt (<) (issued_main s evs)" by (rule issued_main_sorted)
  show "\<forall>t \<in> set (issued_main s evs). requestIdRef s < t"
    using issued_main_bounds [of s evs] by blast
  show "requestIdRef (foldl step s evs) = Max (set (issued_main s evs))"
    if ne: "issued_main s evs \<noteq> []"
  proof -
    have "last (issued_main s evs) = Max (set (issued_main s evs))"
      using ne issued_main_sorted [of s evs] by (rule last_Max [rotated])
    then show ?thesis using issued_main_last [OF ne] by simp
  qed
  show "runAnalysis_settle t out s = s" if "t \<noteq> requestIdRef s"
    using that by (rule settle_stale)
  show "rows (runAnalysis_settle t (Fulfilled r) s) = response_rows r" if "t = requestIdRef s"
    using that by (simp add: runAnalysis_settle_def Let_def)
  show "\<not> loading (runAnalysis_settle t (Fulfilled r) s)" if "t = requestIdRef s"
    using that by (simp add: runAnalysis_settle_def Let_def)
  show "rows (runAnalysis_settle t (Rejected m) s) = []" if "t = requestIdRef s"
    using that by (simp add: runAnalysis_settle_def Let_def)
  show "error (runAnalysis_settle t (Rejected m) s) \<noteq> None" if "t = requestIdRef s"
    using that by (simp add: runAnalysis_settle_def Let_def)
  show "\<not> loading (runAnalysis_settle t (Rejected m) s)" if "t = requestIdRef s"
    using that by (simp add: runAnalysis_settle_def Let_def)
next
  assume h: "requestIdRef s = 0 \<and> sourceId p1 \<noteq> None \<and> sourceId p2 \<noteq> None \<and> sourceId p3 \<noteq> None"
  then show "issued_main s [RunAnalysis p1, RunAnalysis p2, RunAnalysis p3] = [1, 2, 3]"
    using run3(1) [of p1 p2 p3 s] by simp
  define s3 where "s3 = foldl step s [RunAnalysis p1, RunAnalysis p2, RunAnalysis p3]"
  have ref3: "requestIdRef s3 = 3" using h run3(2) [of p1 p2 p3 s] by (simp add: s3_def)
  have a: "step s3 (AnalysisSettled 1 o1) = s3"
    using ref3 by (simp add: settle_stale)
  have b: "rows (step s3 (AnalysisSettled 3 (Fulfilled r3))) = response_rows r3"
    using ref3 by (simp add: runAnalysis_settle_def Let_def)
  have "requestIdRef (step s3 (AnalysisSettled 3 (Fulfilled r3))) = 3"
    using ref3 by (simp add: settle_ref)
  then have c: "step (step s3 (AnalysisSettled 3 (Fulfilled r3))) (AnalysisSettled 2 o2)
      = step s3 (AnalysisSettled 3 (Fulfilled r3))"
    by (simp add: settle_stale)
  show "let s3 = foldl step s [RunAnalysis p1, RunAnalysis p2, RunAnalysis p3];
            a = step s3 (AnalysisSettled 1 o1);
            b = step a (AnalysisSettled 3 (Fulfilled r3));
            c = step b (AnalysisSettled 2 o2)
        in a = s3 \<and> rows b = response_rows r3 \<and> c = b"
    unfolding Let_def s3_def [symmetric] using a b c by simp
qed

theorem main_channel_token_rule_witness:
  "requestIdRef initial_state = 0 \<and> sourceId sample_params \<noteq> None
   \<and> (1::nat) \<noteq> requestIdRef (foldl step initial_state [RunAnalysis sample_params, RunAnalysis sample_params, RunAnalysis sample_params])
   \<and> issued_main initial_state [RunAnalysis sample_params, RunAnalysis sample_params, RunAnalysis sample_params] = [1, 2, 3]
   \<and> rows (foldl step initial_state
         [RunAnalysis sample_params, RunAnalysis sample_params, RunAnalysis sample_params,
          AnalysisSettled 1 (Fulfilled (sample_response 10)),
          AnalysisSettled 3 (Fulfilled (sample_response 30)),
          AnalysisSettled 2 (Fulfilled (sample_response 20))]) = response_rows (sample_response 30)"
proof -
  let ?evs = "[RunAnalysis sample_params, RunAnalysis sample_params, RunAnalysis sample_params]"
  have h: "requestIdRef initial_state = 0 \<and> sourceId sample_params \<noteq> None
      \<and> sourceId sample_params \<noteq> None \<and> sourceId sample_params \<noteq> None"
    by (simp add: initial_state_def sample_params_def)
  note T = main_channel_token_rule [of initial_state ?evs 1 "Fulfilled (sample_response 10)"
      "sample_response 10" None sample_params sample_params sample_params
      "Fulfilled (sample_response 10)" "sample_response 30" "Fulfilled (sample_response 20)"]
  note S = T [THEN conjunct2, THEN conjunct2, THEN conjunct2, THEN conjunct2, THEN conjunct2,
      THEN mp, OF h]
  have toks: "issued_main initial_state ?evs = [1, 2, 3]" using S by (rule conjunct1)
  define s3 where "s3 = foldl step initial_state ?evs"
  have "issued_main initial_state ?evs \<noteq> [] \<longrightarrow> requestIdRef s3 = Max (set (issued_main initial_state ?evs))"
    unfolding s3_def by (rule T [THEN conjunct2, THEN conjunct2, THEN conjunct1])
  then have "requestIdRef s3 = Max (set [1, 2, 3])" unfolding toks by blast
  then have "(1::nat) \<noteq> requestIdRef s3" by simp
  then have ref: "(1::nat) \<noteq> requestIdRef (foldl step initial_state ?evs)"
    unfolding s3_def .
  have abc: "step s3 (AnalysisSettled 1 (Fulfilled (sample_response 10))) = s3
      \<and> rows (step (step s3 (AnalysisSettled 1 (Fulfilled (sample_response 10))))
            (AnalysisSettled 3 (Fulfilled (sample_response 30)))) = response_rows (sample_response 30)
      \<and> step (step (step s3 (AnalysisSettled 1 (Fulfilled (sample_response 10))))
            (AnalysisSettled 3 (Fulfilled (sample_response 30))))
            (AnalysisSettled 2 (Fulfilled (sample_response 20)))
        = step (step s3 (AnalysisSettled 1 (Fulfilled (sample_response 10))))
            (AnalysisSettled 3 (Fulfilled (sample_response 30)))"
    using S [THEN conjunct2] unfolding Let_def s3_def .
  have "rows (foldl step s3
         [AnalysisSettled 1 (Fulfilled (sample_response 10)),
          AnalysisSettled 3 (Fulfilled (sample_response 30)),
          AnalysisSettled 2 (Fulfilled (sample_response 20))]) = response_rows (sample_response 30)"
    by (simp only: foldl_Cons foldl_Nil abc [THEN conjunct2, THEN conjunct2] abc [THEN conjunct2, THEN conjunct1])
  then have fin: "rows (foldl step initial_state
         (?evs @ [AnalysisSettled 1 (Fulfilled (sample_response 10)),
          AnalysisSettled 3 (Fulfilled (sample_response 30)),
          AnalysisSettled 2 (Fulfilled (sample_response 20))])) = response_rows (sample_response 30)"
    unfolding s3_def by (simp only: foldl_append)
  show ?thesis using h toks ref fin by (simp only: append_Cons append_Nil simp_thms)
qed

text \<open>
  Claim C7.  A failure whose token is the counter empties the rows and stores the text of
  the error (the fixed text when the rejection is no \<^verbatim>\<open>Error\<close>).  A failure whose token is
  stale leaves the state as it was; after a later response was accepted, the rows are
  still the rows of that response.
\<close>

theorem failed_request_rule:
  "(t = requestIdRef s \<longrightarrow>
      rows (runAnalysis_settle t (Rejected m) s) = []
      \<and> error (runAnalysis_settle t (Rejected (Some msg)) s) = Some msg
      \<and> error (runAnalysis_settle t (Rejected None) s) = Some ''Failed to load analytics data.'')
   \<and> (t \<noteq> requestIdRef s \<longrightarrow> runAnalysis_settle t (Rejected m) s = s)
   \<and> (t \<noteq> requestIdRef s \<longrightarrow>
        runAnalysis_settle t (Rejected m) (runAnalysis_settle (requestIdRef s) (Fulfilled r) s)
          = runAnalysis_settle (requestIdRef s) (Fulfilled r) s
        \<and> rows (runAnalysis_settle t (Rejected m) (runAnalysis_settle (requestIdRef s) (Fulfilled r) s))
          = response_rows r)"
proof (intro conjI impI)
  show "rows (runAnalysis_settle t (Rejected m) s) = []" if "t = requestIdRef s"
    using that by (simp add: runAnalysis_settle_def Let_def)
  show "error (runAnalysis_settle t (Rejected (Some msg)) s) = Some msg" if "t = requestIdRef s"
    using that by (simp add: runAnalysis_settle_def Let_def)
  show "error (runAnalysis_settle t (Rejected None) s) = Some ''Failed to load analytics data.''"
    if "t = requestIdRef s"
    using that by (simp add: runAnalysis_settle_def Let_def)
  show "runAnalysis_settle t (Rejected m) s = s" if "t \<noteq> requestIdRef s"
    using that by (rule settle_stale)
  show "runAnalysis_settle t (Rejected m) (runAnalysis_settle (requestIdRef s) (Fulfilled r) s)
          = runAnalysis_settle (requestIdRef s) (Fulfilled r) s" if "t \<noteq> requestIdRef s"
    using that by (simp add: settle_stale settle_ref)
  then show "rows (runAnalysis_settle t (Rejected m) (runAnalysis_settle (requestIdRef s) (Fulfilled r) s))
          = response_rows r" if "t \<noteq> requestIdRef s"
    using that by (simp add: runAnalysis_settle_def Let_def)
qed

theorem failed_request_rule_witness:
  "(3::nat) = requestIdRef loaded_state \<and> (2::nat) \<noteq> requestIdRef loaded_state
   \<and> rows (runAnalysis_settle 3 (Rejected (Some ''Network down'')) loaded_state) = []
   \<and> error (runAnalysis_settle 3 (Rejected (Some ''Network down'')) loaded_state) = Some ''Network down''
   \<and> runAnalysis_settle 2 (Rejected (Some ''Network down'')) loaded_state = loaded_state
   \<and> rows (runAnalysis_settle 2 (Rejected (Some ''Network down'')) loaded_state) = response_rows (sample_response 30)"
  using failed_request_rule [of 3 loaded_state "Some ''Network down''" "''Network down''"]
    failed_request_rule [of 2 loaded_state "Some ''Network down''"]
  by (simp add: loaded_state_def initial_state_def)

subsection \<open>The two channels\<close>

lemma issued_live_bounds:
  "\<forall>t \<in> set (issued_live s evs). liveRequestIdRef s < t"
proof (induction evs arbitrary: s)
  case Nil
  show ?case by simp
next
  case (Cons e evs)
  have mono: "liveRequestIdRef s \<le> liveRequestIdRef (step s e)"
    by (cases e)
       (auto simp: runAnalysis_dispatch_def runAnalysis_settle_def refreshLiveSnapshot_dispatch_def
          refreshLiveSnapshot_settle_def Let_def split: option.splits outcome.splits)
  have now: "\<forall>t \<in> set (case e of RefreshLive codes \<Rightarrow> [fst (fst (refreshLiveSnapshot_dispatch codes s))] | _ \<Rightarrow> []).
      liveRequestIdRef s < t"
    by (cases e) (auto simp: refreshLiveSnapshot_dispatch_def Let_def)
  show ?case using Cons.IH [of "step s e"] mono now by fastforce
qed

lemma issued_live_sorted: "sorted_wrt (<) (issued_live s evs)"
proof (induction evs arbitrary: s)
  case Nil
  show ?case by simp
next
  case (Cons e evs)
  have now: "\<forall>t \<in> set (case e of RefreshLive codes \<Rightarrow> [fst (fst (refreshLiveSnapshot_dispatch codes s))] | _ \<Rightarrow> []).
      t \<le> liveRequestIdRef (step s e)"
    by (cases e) (auto simp: refreshLiveSnapshot_dispatch_def Let_def)
  have one: "sorted_wrt (<) (case e of RefreshLive codes \<Rightarrow> [fst (fst (refreshLiveSnapshot_dispatch codes s))] | _ \<Rightarrow> [])"
    by (cases e) auto
  show ?case
    using Cons.IH [of "step s e"] now one issued_live_bounds [of "step s e" evs]
    by (fastforce simp: sorted_wrt_append)
qed

lemma step_main_view:
  "main_view (step s (RefreshLive codes)) = main_view s"
  "main_view (step s (LiveSettled t lo)) = main_view s"
  by (cases lo; simp add: main_view_def refreshLiveSnapshot_dispatch_def refreshLiveSnapshot_settle_def Let_def)+

lemma step_live_view:
  "live_view (step s (RunAnalysis p)) = live_view s"
  "live_view (step s (AnalysisSettled t out)) = live_view s"
  by (cases out; simp add: live_view_def runAnalysis_dispatch_def runAnalysis_settle_def Let_def split: option.splits)+

text \<open>
  Claim C9.  Each channel has its own strictly increasing tokens.  A call or a settlement
  on the live channel leaves rows, error text, loading flag and counter of the main
  channel as they were, and the main channel leaves snapshot, loading flag and counter of
  the live channel as they were.  Neither channel reads the counter of the other: with
  another value in that counter, its own fields come out the same.
\<close>

theorem channels_independent:
  "sorted_wrt (<) (issued_main s evs) \<and> sorted_wrt (<) (issued_live s evs)
   \<and> main_view (step s (RefreshLive codes)) = main_view s
   \<and> main_view (step s (LiveSettled t lo)) = main_view s
   \<and> live_view (step s (RunAnalysis p)) = live_view s
   \<and> live_view (step s (AnalysisSettled t out)) = live_view s
   \<and> filters (step s e) = filters s
   \<and> live_view (step (s\<lparr>requestIdRef := n\<rparr>) (RefreshLive codes)) = live_view (step s (RefreshLive codes))
   \<and> live_view (step (s\<lparr>requestIdRef := n\<rparr>) (LiveSettled t lo)) = live_view (step s (LiveSettled t lo))
   \<and> main_view (step (s\<lparr>liveRequestIdRef := n\<rparr>) (RunAnalysis p)) = main_view (step s (RunAnalysis p))
   \<and> main_view (step (s\<lparr>liveRequestIdRef := n\<rparr>) (AnalysisSettled t out)) = main_view (step s (AnalysisSettled t out))"
proof (intro conjI)
  show "sorted_wrt (<) (issued_main s evs)" by (rule issued_main_sorted)
  show "sorted_wrt (<) (issued_live s evs)" by (rule issued_live_sorted)
  show "main_view (step s (RefreshLive codes)) = main_view s" by (rule step_main_view)
  show "main_view (step s (LiveSettled t lo)) = main_view s" by (rule step_main_view)
  show "live_view (step s (RunAnalysis p)) = live_view s" by (rule step_live_view)
  show "live_view (step s (AnalysisSettled t out)) = live_view s" by (rule step_live_view)
  show "filters (step s e) = filters s"
    by (cases e)
       (auto simp: runAnalysis_dispatch_def runAnalysis_settle_def refreshLiveSnapshot_dispatch_def
          refreshLiveSnapshot_settle_def Let_def split: option.splits outcome.splits)
  show "live_view (step (s\<lparr>requestIdRef := n\<rparr>) (RefreshLive codes)) = live_view (step s (RefreshLive codes))"
    by (simp add: live_view_def refreshLiveSnapshot_dispatch_def Let_def)
  show "live_view (step (s\<lparr>requestIdRef := n\<rparr>) (LiveSettled t lo)) = live_view (step s (LiveSettled t lo))"
    by (cases lo) (simp_all add: live_view_def refreshLiveSnapshot_settle_def Let_def)
  show "main_view (step (s\<lparr>liveRequestIdRef := n\<rparr>) (RunAnalysis p)) = main_view (step s (RunAnalysis p))"
    by (simp add: main_view_def runAnalysis_dispatch_def Let_def split: option.splits)
  show "main_view (step (s\<lparr>liveRequestIdRef := n\<rparr>) (AnalysisSettled t out)) = main_view (step s (AnalysisSettled t out))"
    by (cases out) (simp_all add: main_view_def runAnalysis_settle_def Let_def)
qed

subsection \<open>Normalisation before dispatch\<close>

lemma normalize_cases:
  "from_s \<noteq> [] \<Longrightarrow> to_s \<noteq> [] \<Longrightarrow> from_s \<le> to_s \<Longrightarrow>
     normalizeDateRange from_s to_s = \<lparr>range_from = Some from_s, range_to = Some to_s\<rparr>"
  "from_s \<noteq> [] \<Longrightarrow> to_s \<noteq> [] \<Longrightarrow> to_s < from_s \<Longrightarrow>
     normalizeDateRange from_s to_s = \<lparr>range_from = Some to_s, range_to = Some from_s\<rparr>"
  by (auto simp: normalizeDateRange_def)

lemma effective_limit_floor: "100 \<le> effective_limit fs sid req"
  by (simp add: effective_limit_def Let_def)

lemma effective_limit_found:
  "fs = Some srcs \<Longrightarrow> find (\<lambda>src. source_id src = sid) srcs = Some src \<Longrightarrow>
     effective_limit fs sid req = max 100 (min req (max 100 (row_count src)))"
  by (simp add: effective_limit_def Let_def)

text \<open>
  Claim C8.  In the payload of a dispatched request: when both dates are given, they are
  the two dates in ascending order, swapped when they came inverted; an empty date is
  absent; the limit is at least 100, and with the selected source among the filters it is
  at most the row count of that source, itself raised to 100.
\<close>

theorem dispatch_normalization:
  "fst (runAnalysis_dispatch p s) = Some (t, payload) \<longrightarrow>
     (fromDate p \<noteq> [] \<and> toDate p \<noteq> [] \<longrightarrow>
        (\<exists>a b. date_from payload = Some a \<and> date_to payload = Some b \<and> a \<le> b
               \<and> {a, b} = {fromDate p, toDate p})
        \<and> (toDate p < fromDate p \<longrightarrow>
             date_from payload = Some (toDate p) \<and> date_to payload = Some (fromDate p)))
     \<and> (fromDate p = [] \<longrightarrow> date_from payload = None)
     \<and> (toDate p = [] \<longrightarrow> date_to payload = None)
     \<and> (fromDate p \<noteq> [] \<and> toDate p = [] \<longrightarrow> date_from payload = Some (fromDate p))
     \<and> (fromDate p = [] \<and> toDate p \<noteq> [] \<longrightarrow> date_to payload = Some (toDate p))
     \<and> 100 \<le> limit payload
     \<and> (\<forall>sid srcs src. sourceId p = Some sid \<and> filters s = Some srcs
            \<and> find (\<lambda>x. source_id x = sid) srcs = Some src \<longrightarrow>
          limit payload = max 100 (min (requestedLimit p) (max 100 (row_count src)))
          \<and> limit payload \<le> max 100 (row_count src))"
proof
  assume d: "fst (runAnalysis_dispatch p s) = Some (t, payload)"
  then obtain sid where sid: "sourceId p = Some sid"
    by (cases "sourceId p") (auto simp: runAnalysis_dispatch_def)
  have pl: "payload = build_payload (filters s) sid p"
    using d sid by (simp add: runAnalysis_dispatch_def Let_def)
  have df: "date_from payload = range_from (normalizeDateRange (fromDate p) (toDate p))"
    and dt: "date_to payload = range_to (normalizeDateRange (fromDate p) (toDate p))"
    and lm: "limit payload = effective_limit (filters s) sid (requestedLimit p)"
    by (simp_all add: pl build_payload_def Let_def)
  have both: "(\<exists>a b. date_from payload = Some a \<and> date_to payload = Some b \<and> a \<le> b
               \<and> {a, b} = {fromDate p, toDate p})
        \<and> (toDate p < fromDate p \<longrightarrow>
             date_from payload = Some (toDate p) \<and> date_to payload = Some (fromDate p))"
    if ne: "fromDate p \<noteq> [] \<and> toDate p \<noteq> []"
  proof (cases "fromDate p \<le> toDate p")
    case True
    then show ?thesis using ne df dt normalize_cases(1) [of "fromDate p" "toDate p"] by auto
  next
    case False
    then have lt: "toDate p < fromDate p" by simp
    then show ?thesis using ne df dt normalize_cases(2) [of "fromDate p" "toDate p"] by auto
  qed
  have lim: "limit payload = max 100 (min (requestedLimit p) (max 100 (row_count src)))
          \<and> limit payload \<le> max 100 (row_count src)"
    if "sourceId p = Some sid'" "filters s = Some srcs" "find (\<lambda>x. source_id x = sid') srcs = Some src"
    for sid' srcs src
  proof -
    have "sid' = sid" using that(1) sid by simp
    then have "limit payload = max 100 (min (requestedLimit p) (max 100 (row_count src)))"
      using lm effective_limit_found [OF that(2), of sid src "requestedLimit p"] that(3) by simp
    then show ?thesis by simp
  qed
  show "(fromDate p \<noteq> [] \<and> toDate p \<noteq> [] \<longrightarrow>
        (\<exists>a b. date_from payload = Some a \<and> date_to payload = Some b \<and> a \<le> b
               \<and> {a, b} = {fromDate p, toDate p})
        \<and> (toDate p < fromDate p \<longrightarrow>
             date_from payload = Some (toDate p) \<and> date_to payload = Some (fromDate p)))
     \<and> (fromDate p = [] \<longrightarrow> date_from payload = None)
     \<and> (toDate p = [] \<longrightarrow> date_to payload = None)
     \<and> (fromDate p \<noteq> [] \<and> toDate p = [] \<longrightarrow> date_from payload = Some (fromDate p))
     \<and> (fromDate p = [] \<and> toDate p \<noteq> [] \<longrightarrow> date_to payload = Some (toDate p))
     \<and> 100 \<le> limit payload
     \<and> (\<forall>sid srcs src. sourceId p = Some sid \<and> filters s = Some srcs
            \<and> find (\<lambda>x. source_id x = sid) srcs = Some src \<longrightarrow>
          limit payload = max 100 (min (requestedLimit p) (max 100 (row_count src)))
          \<and> limit payload \<le> max 100 (row_count src))"
  proof (intro conjI impI allI)
    show "\<exists>a b. date_from payload = Some a \<and> date_to payload = Some b \<and> a \<le> b
               \<and> {a, b} = {fromDate p, toDate p}" if "fromDate p \<noteq> [] \<and> toDate p \<noteq> []"
      using both [OF that] by blast
    show "date_from payload = Some (toDate p)" if "fromDate p \<noteq> [] \<and> toDate p \<noteq> []" "toDate p < fromDate p"
      using both [OF that(1)] that(2) by blast
    show "date_to payload = Some (fromDate p)" if "fromDate p \<noteq> [] \<and> toDate p \<noteq> []" "toDate p < fromDate p"
      using both [OF that(1)] that(2) by blast
    show "date_from payload = None" if "fromDate p = []"
      using that df by (simp add: normalizeDateRange_def)
    show "date_to payload = None" if "toDate p = []"
      using that dt by (simp add: normalizeDateRange_def)
    show "date_from payload = Some (fromDate p)" if "fromDate p \<noteq> [] \<and> toDate p = []"
      using that df by (simp add: normalizeDateRange_def)
    show "date_to payload = Some (toDate p)" if "fromDate p = [] \<and> toDate p \<noteq> []"
      using that dt by (simp add: normalizeDateRange_def)
    show "100 \<le> limit payload" using lm effective_limit_floor by simp
    show "limit payload = max 100 (min (requestedLimit p) (max 100 (row_count src)))"
      if "sourceId p = Some sid' \<and> filters s = Some srcs \<and> find (\<lambda>x. source_id x = sid') srcs = Some src"
      for sid' srcs src using lim [of sid' srcs src] that by blast
    show "limit payload \<le> max 100 (row_count src)"
      if "sourceId p = Some sid' \<and> filters s = Some srcs \<and> find (\<lambda>x. source_id x = sid') srcs = Some src"
      for sid' srcs src using lim [of sid' srcs src] that by blast
  qed
qed

lemma sample_dispatch: "fst (runAnalysis_dispatch sample_params sample_state) = Some (1, sample_payload)"
  by (simp add: runAnalysis_dispatch_def sample_params_def sample_state_def initial_state_def
      build_payload_def normalizeDateRange_def effective_limit_def sample_payload_def Let_def)

theorem dispatch_normalization_witness:
  "fst (runAnalysis_dispatch sample_params sample_state) = Some (1, sample_payload)
   \<and> fromDate sample_params \<noteq> [] \<and> toDate sample_params \<noteq> []
   \<and> toDate sample_params < fromDate sample_params
   \<and> sourceId sample_params = Some 7
   \<and> filters sample_state = Some [\<lparr>source_id = 3, row_count = 90000\<rparr>, \<lparr>source_id = 7, row_count = 2500\<rparr>]
   \<and> find (\<lambda>x. source_id x = 7) [\<lparr>source_id = 3, row_count = 90000\<rparr>, \<lparr>source_id = 7, row_count = 2500\<rparr>]
       = Some \<lparr>source_id = 7, row_count = 2500\<rparr>
   \<and> date_from sample_payload = Some (toDate sample_params)
   \<and> date_to sample_payload = Some (fromDate sample_params)
   \<and> 100 \<le> limit sample_payload
   \<and> limit sample_payload \<le> max 100 (row_count \<lparr>source_id = 7, row_count = 2500\<rparr>)"
  using dispatch_normalization [of sample_params sample_state 1 sample_payload] sample_dispatch
  by (simp add: sample_params_def sample_state_def sample_payload_def)

section \<open>Summary and trend: the statistics\<close>

lemma lit_tenth: "lit (1 / 10) = 3602879701896397 / 36028797018963968"
  by code_simp










subsection \<open>The trend\<close>










section \<open>Histogram Builder: the counts\<close>


























section \<open>Categorical Aggregator: one bar per station, sorted\<close>

lemma computeStationBars_sort_key:
  "computeStationBars rs = sort_key (\<lambda>p. - avg p) (station_entries rs)"
  unfolding computeStationBars_def
  by (rule js_sort_sort_key) (simp add: fsub_le_zero_iff)

lemma station_row_fold:
  "foldl station_row [] rs
     = foldl (\<lambda>g r. AList.update (station_code r) (accumulate (map_of g (station_code r)) (row_value r)) g) [] rs"
proof -
  have "station_row = (\<lambda>g r. AList.update (station_code r) (accumulate (map_of g (station_code r)) (row_value r)) g)"
    by (intro ext) (simp add: station_row_def)
  then show ?thesis by simp
qed

lemma station_entries_stations:
  "map station (station_entries rs) = rev (remdups (rev (map station_code rs)))"
proof -
  have "map station (station_entries rs) = map fst (foldl station_row [] rs)"
    by (simp add: station_entries_def comp_def)
  then show ?thesis by (simp only: station_row_fold group_keys)
qed

lemma station_entries_avg:
  assumes "p \<in> set (station_entries rs)"
  shows "avg p = fmean (map row_value (filter (\<lambda>r. station_code r = station p) rs))"
proof -
  from assms obtain e where e: "e \<in> set (foldl station_row [] rs)"
    and p: "p = \<lparr>station = fst e, avg = average (snd e)\<rparr>"
    by (auto simp: station_entries_def)
  have "distinct (map fst (foldl station_row [] rs))"
    by (simp only: station_row_fold group_keys) simp
  then have "map_of (foldl station_row [] rs) (fst e) = Some (snd e)"
    using e by simp
  then have "snd e = \<lparr>sum_acc = fsum (map row_value (filter (\<lambda>r. station_code r = fst e) rs)),
        count_acc = length (map row_value (filter (\<lambda>r. station_code r = fst e) rs))\<rparr>"
    unfolding station_row_fold group_lookup by (simp split: if_splits)
  then have "average (snd e) = fmean (map row_value (filter (\<lambda>r. station_code r = fst e) rs))"
    by (simp only: average_fmean)
  then show ?thesis by (simp add: p)
qed

text \<open>
  Claim C6.  Before the sort there is one entry per distinct station code, in the order in
  which the stations first occur in the batch.  The result has the same entries, so one
  pair per station present; the average of a pair is the sum of the values of its
  station divided by their number; the averages do not increase along the result; pairs
  of equal average keep the order of the entries before the sort, which is the order of
  first occurrence; the capped variant is the first 14 pairs of the result.
\<close>

theorem station_bars_sorted:
  "map station (station_entries rs) = rev (remdups (rev (map station_code rs)))
   \<and> set (computeStationBars rs) = set (station_entries rs)
   \<and> distinct (map station (computeStationBars rs))
   \<and> station ` set (computeStationBars rs) = station_code ` set rs
   \<and> length (computeStationBars rs) = card (station_code ` set rs)
   \<and> (\<forall>p \<in> set (computeStationBars rs).
         avg p = fdiv (fsum (map row_value (filter (\<lambda>r. station_code r = station p) rs)))
                   (of_nat (length (filter (\<lambda>r. station_code r = station p) rs))))
   \<and> sorted_wrt (\<lambda>a b. avg b \<le> avg a) (computeStationBars rs)
   \<and> (\<forall>a. filter (\<lambda>p. avg p = a) (computeStationBars rs)
            = filter (\<lambda>p. avg p = a) (station_entries rs))
   \<and> computeStationBars_capped rs = take 14 (computeStationBars rs)"
proof (intro conjI ballI allI)
  note sk = computeStationBars_sort_key [of rs]
  show st: "map station (station_entries rs) = rev (remdups (rev (map station_code rs)))"
    by (rule station_entries_stations)
  show se: "set (computeStationBars rs) = set (station_entries rs)"
    by (simp add: sk)
  have de: "distinct (map station (station_entries rs))" by (simp add: st)
  show db: "distinct (map station (computeStationBars rs))"
    using de by (simp only: sk distinct_map_sort_key)
  show im: "station ` set (computeStationBars rs) = station_code ` set rs"
  proof -
    have "station ` set (station_entries rs) = set (map station (station_entries rs))" by simp
    also have "\<dots> = station_code ` set rs" by (simp only: st) simp
    finally show ?thesis by (simp add: se)
  qed
  show "length (computeStationBars rs) = card (station_code ` set rs)"
  proof -
    have "length (map station (computeStationBars rs)) = card (set (map station (computeStationBars rs)))"
      using db by (simp only: distinct_card)
    then show ?thesis using im by simp
  qed
  show "avg p = fdiv (fsum (map row_value (filter (\<lambda>r. station_code r = station p) rs)))
                   (of_nat (length (filter (\<lambda>r. station_code r = station p) rs)))"
    if "p \<in> set (computeStationBars rs)" for p
    using station_entries_avg [of p rs] that by (simp add: se fmean_def)
  show "sorted_wrt (\<lambda>a b. avg b \<le> avg a) (computeStationBars rs)"
  proof -
    have "sorted (map (\<lambda>p. - avg p) (sort_key (\<lambda>p. - avg p) (station_entries rs)))"
      by (rule sorted_sort_key)
    then show ?thesis by (simp add: sk sorted_map)
  qed
  show "filter (\<lambda>p. avg p = a) (computeStationBars rs) = filter (\<lambda>p. avg p = a) (station_entries rs)"
    for a
    using sort_key_stable [of "\<lambda>p. - avg p" "- a" "station_entries rs"] by (simp add: sk)
  show "computeStationBars_capped rs = take 14 (computeStationBars rs)"
    by (simp add: computeStationBars_capped_def)
qed

lemma ties_entries:
  "station_entries ties_batch = [\<lparr>station = ''S1'', avg = 10\<rparr>, \<lparr>station = ''S2'', avg = 30\<rparr>,
     \<lparr>station = ''S3'', avg = 10\<rparr>]"
  by code_simp

lemma ties_bars:
  "computeStationBars ties_batch = [\<lparr>station = ''S2'', avg = 30\<rparr>, \<lparr>station = ''S1'', avg = 10\<rparr>,
     \<lparr>station = ''S3'', avg = 10\<rparr>]"
  by code_simp

theorem station_bars_sorted_witness:
  "\<lparr>station = ''S1'', avg = 10\<rparr> \<in> set (computeStationBars ties_batch)
   \<and> avg \<lparr>station = ''S1'', avg = 10\<rparr>
       = fdiv (fsum (map row_value (filter (\<lambda>r. station_code r = ''S1'') ties_batch)))
           (of_nat (length (filter (\<lambda>r. station_code r = ''S1'') ties_batch)))
   \<and> computeStationBars ties_batch = [\<lparr>station = ''S2'', avg = 30\<rparr>, \<lparr>station = ''S1'', avg = 10\<rparr>,
         \<lparr>station = ''S3'', avg = 10\<rparr>]
   \<and> map station (station_entries ties_batch) = [''S1'', ''S2'', ''S3'']
   \<and> filter (\<lambda>p. avg p = 10) (computeStationBars ties_batch)
       = [\<lparr>station = ''S1'', avg = 10\<rparr>, \<lparr>station = ''S3'', avg = 10\<rparr>]
   \<and> computeStationBars_capped ties_batch = computeStationBars ties_batch"
proof -
  note T = station_bars_sorted [of ties_batch]
  have mem: "\<lparr>station = ''S1'', avg = 10\<rparr> \<in> set (computeStationBars ties_batch)"
    by (simp add: ties_bars)
  have a: "avg \<lparr>station = ''S1'', avg = 10\<rparr>
       = fdiv (fsum (map row_value (filter (\<lambda>r. station_code r = station \<lparr>station = ''S1'', avg = 10\<rparr>) ties_batch)))
           (of_nat (length (filter (\<lambda>r. station_code r = station \<lparr>station = ''S1'', avg = 10\<rparr>) ties_batch)))"
    using T [THEN conjunct2, THEN conjunct2, THEN conjunct2, THEN conjunct2, THEN conjunct2,
        THEN conjunct1] mem by (rule bspec)
  have f: "filter (\<lambda>p. avg p = 10) (computeStationBars ties_batch)
       = filter (\<lambda>p. avg p = 10) (station_entries ties_batch)"
    using T [THEN conjunct2, THEN conjunct2, THEN conjunct2, THEN conjunct2, THEN conjunct2,
        THEN conjunct2, THEN conjunct2, THEN conjunct1] by (rule spec)
  have c: "computeStationBars_capped ties_batch = take 14 (computeStationBars ties_batch)"
    using T by (simp only:)
  show ?thesis
    using mem a f c by (simp add: ties_bars ties_entries)
qed

section \<open>Heatmap Builder: days and cells\<close>























lemma small_key: "heat_key ''2024-01-01'' 8 = ''2024-01-01|8''"
  by code_simp


section \<open>Temporal Aggregator: the overall series\<close>

lemma set_js_insert: "set (js_insert cmp x ys) = insert x (set ys)"
  by (induction ys) auto

lemma set_js_sort: "set (js_sort cmp xs) = set xs"
  by (induction xs) (simp_all add: js_sort_def set_js_insert)

lemma point_assign_overall:
  "distinct (map fst kvs) \<Longrightarrow>
     overall (foldl point_assign p kvs)
       = (case map_of kvs ''overall'' of Some a \<Rightarrow> average a | None \<Rightarrow> overall p)"
proof (induction kvs arbitrary: p)
  case Nil
  show ?case by simp
next
  case (Cons kv kvs)
  have d: "distinct (map fst kvs)" and nk: "fst kv \<notin> fst ` set kvs" using Cons.prems by simp_all
  show ?case
  proof (cases "fst kv = ''overall''")
    case True
    then have none: "map_of kvs ''overall'' = None" using nk by (simp add: map_of_eq_None_iff)
    have pa: "overall (point_assign p kv) = average (snd kv)"
      using True by (simp add: point_assign_def point_set_def)
    show ?thesis using True by (simp add: Cons.IH [OF d] none pa)
  next
    case False
    then have eq: "overall (point_assign p kv) = overall p"
      by (simp add: point_assign_def point_set_def)
    show ?thesis using False by (simp add: Cons.IH [OF d] eq split: option.splits)
  qed
qed

lemma point_assign_bucket:
  "''bucket'' \<notin> fst ` set kvs \<Longrightarrow> bucket (foldl point_assign p kvs) = bucket p"
proof (induction kvs arbitrary: p)
  case Nil
  show ?case by simp
next
  case (Cons kv kvs)
  have "fst kv \<noteq> ''bucket''" and rest: "''bucket'' \<notin> fst ` set kvs" using Cons.prems by auto
  then have "bucket (point_assign p kv) = bucket p"
    by (simp add: point_assign_def point_set_def)
  then show ?case using Cons.IH [OF rest, of "point_assign p kv"] by simp
qed

text \<open>
  What the pass over the rows leaves in \<^verbatim>\<open>bucketMap\<close>, when no series key is the string
  \<^verbatim>\<open>overall\<close>: one entry per bucket key of the batch, and in it the accumulator \<^verbatim>\<open>overall\<close>
  of all the rows of that bucket.
\<close>

lemma temporal_fold:
  assumes "\<forall>r \<in> set rs. (if split then station_code r else variable_code r) \<noteq> ''overall''"
  shows "distinct (map fst (fst (foldl (temporal_row g split) ([], []) rs)))
    \<and> fst ` set (fst (foldl (temporal_row g split) ([], []) rs))
        = (\<lambda>r. getBucketKey (observed_at r) g) ` set rs
    \<and> (\<forall>b sb. map_of (fst (foldl (temporal_row g split) ([], []) rs)) b = Some sb \<longrightarrow>
          distinct (map fst sb)
          \<and> fst ` set sb \<subseteq> insert ''overall''
                ((\<lambda>r. if split then station_code r else variable_code r) ` set rs)
          \<and> map_of sb ''overall''
              = Some \<lparr>sum_acc = fsum (map row_value (filter (\<lambda>r. getBucketKey (observed_at r) g = b) rs)),
                      count_acc = length (filter (\<lambda>r. getBucketKey (observed_at r) g = b) rs)\<rparr>)"
  using assms
proof (induction rs rule: rev_induct)
  case Nil
  show ?case by simp
next
  case (snoc r rs)
  define bm where "bm = fst (foldl (temporal_row g split) ([], []) rs)"
  define b where "b = getBucketKey (observed_at r) g"
  define s where "s = (if split then station_code r else variable_code r)"
  define sb0 where "sb0 = (case map_of bm b of Some m \<Rightarrow> m | None \<Rightarrow> [])"
  define sb1 where "sb1 = AList.update s (accumulate (map_of sb0 s) (row_value r)) sb0"
  define sb2 where "sb2 = AList.update ''overall'' (accumulate (map_of sb1 ''overall'') (row_value r)) sb1"
  have s_ne: "s \<noteq> ''overall''" using snoc.prems by (simp add: s_def)
  have prem: "\<forall>r \<in> set rs. (if split then station_code r else variable_code r) \<noteq> ''overall''"
    using snoc.prems by simp
  note IH = snoc.IH [OF prem, folded bm_def]
  have dist: "distinct (map fst bm)" and dom: "fst ` set bm = (\<lambda>r. getBucketKey (observed_at r) g) ` set rs"
    using IH by simp_all
  have ihb: "distinct (map fst sb)
      \<and> fst ` set sb \<subseteq> insert ''overall'' ((\<lambda>r. if split then station_code r else variable_code r) ` set rs)
      \<and> map_of sb ''overall''
          = Some \<lparr>sum_acc = fsum (map row_value (filter (\<lambda>r. getBucketKey (observed_at r) g = b') rs)),
                  count_acc = length (filter (\<lambda>r. getBucketKey (observed_at r) g = b') rs)\<rparr>"
    if "map_of bm b' = Some sb" for b' sb
    using IH that by blast
  have step: "fst (foldl (temporal_row g split) ([], []) (rs @ [r])) = AList.update b sb2 bm"
    by (simp add: temporal_row_def Let_def bm_def b_def s_def sb0_def sb1_def sb2_def)
  have d0: "distinct (map fst sb0)"
    and k0: "fst ` set sb0 \<subseteq> insert ''overall'' ((\<lambda>r. if split then station_code r else variable_code r) ` set rs)"
  proof -
    show "distinct (map fst sb0)"
    proof (cases "map_of bm b")
      case None
      then show ?thesis by (simp add: sb0_def)
    next
      case (Some m)
      then show ?thesis using ihb [OF Some] by (simp add: sb0_def)
    qed
    show "fst ` set sb0 \<subseteq> insert ''overall'' ((\<lambda>r. if split then station_code r else variable_code r) ` set rs)"
    proof (cases "map_of bm b")
      case None
      then show ?thesis by (simp add: sb0_def)
    next
      case (Some m)
      then show ?thesis using ihb [OF Some] by (simp add: sb0_def)
    qed
  qed
  have o0: "accumulate (map_of sb0 ''overall'') (row_value r)
      = \<lparr>sum_acc = fsum (map row_value (filter (\<lambda>r. getBucketKey (observed_at r) g = b) (rs @ [r]))),
         count_acc = length (filter (\<lambda>r. getBucketKey (observed_at r) g = b) (rs @ [r]))\<rparr>"
  proof (cases "map_of bm b")
    case None
    then have "b \<notin> fst ` set bm" by (simp add: map_of_eq_None_iff)
    then have "b \<notin> (\<lambda>r. getBucketKey (observed_at r) g) ` set rs" unfolding dom .
    then have "filter (\<lambda>r. getBucketKey (observed_at r) g = b) rs = []"
      by (metis (mono_tags, lifting) filter_False image_eqI)
    then show ?thesis using None by (simp add: sb0_def accumulate_def fsum_def b_def)
  next
    case (Some m)
    from ihb [OF Some] show ?thesis
      using Some by (simp add: sb0_def accumulate_def fsum_snoc b_def)
  qed
  have d2: "distinct (map fst sb2)" unfolding sb2_def sb1_def by (intro distinct_update d0)
  have k2: "fst ` set sb2 \<subseteq> insert ''overall''
      ((\<lambda>r. if split then station_code r else variable_code r) ` set (rs @ [r]))"
    using k0 by (auto simp: sb2_def sb1_def dom_update s_def)
  have "map_of sb1 ''overall'' = map_of sb0 ''overall''"
    using s_ne by (simp add: sb1_def update_conv)
  then have o2: "map_of sb2 ''overall''
      = Some \<lparr>sum_acc = fsum (map row_value (filter (\<lambda>r. getBucketKey (observed_at r) g = b) (rs @ [r]))),
         count_acc = length (filter (\<lambda>r. getBucketKey (observed_at r) g = b) (rs @ [r]))\<rparr>"
    using o0 by (simp add: sb2_def update_conv)
  have A: "distinct (map fst (AList.update b sb2 bm))" using dist by (rule distinct_update)
  have B: "fst ` set (AList.update b sb2 bm) = (\<lambda>r. getBucketKey (observed_at r) g) ` set (rs @ [r])"
    using dom by (auto simp: dom_update b_def)
  have C: "distinct (map fst sb)
      \<and> fst ` set sb \<subseteq> insert ''overall''
            ((\<lambda>r. if split then station_code r else variable_code r) ` set (rs @ [r]))
      \<and> map_of sb ''overall''
          = Some \<lparr>sum_acc = fsum (map row_value (filter (\<lambda>r. getBucketKey (observed_at r) g = b') (rs @ [r]))),
                  count_acc = length (filter (\<lambda>r. getBucketKey (observed_at r) g = b') (rs @ [r]))\<rparr>"
    if look: "map_of (AList.update b sb2 bm) b' = Some sb" for b' sb
  proof (cases "b' = b")
    case True
    then have "sb = sb2" using look by (simp add: update_conv)
    then show ?thesis using d2 k2 o2 True by simp
  next
    case False
    then have "map_of bm b' = Some sb" using look by (simp add: update_conv)
    from ihb [OF this] show ?thesis using False by (auto simp: b_def)
  qed
  show ?case unfolding step using A B C by blast
qed

lemma overall_points:
  "points (computeTemporalSeries sample_toString overall_batch Day True)
     = [\<lparr>bucket = JStr ''2024-01-01'', overall = 20, series = [(''S1'', 40)]\<rparr>]"
  by code_simp

lemma overall_mean:
  "fmean (map row_value (filter (\<lambda>r. getBucketKey (observed_at r) Day = ''2024-01-01'') overall_batch)) = 25"
  by code_simp

lemma small_points:
  "points (computeTemporalSeries sample_toString small_batch Day False)
     = [\<lparr>bucket = JStr ''2024-01-01'', overall = 20, series = [(''PM25'', 20)]\<rparr>]"
  by code_simp

lemma computeTemporalSeries_points:
  "set (points (computeTemporalSeries ts rs g split))
     = make_point ` set (fst (foldl (temporal_row g split) ([], []) rs))"
  by (simp add: computeTemporalSeries_def Let_def set_js_sort)

text \<open>
  For a batch in which no series key is the string \<^verbatim>\<open>overall\<close> or \<^verbatim>\<open>bucket\<close>, every point
  carries the key of a bucket of the batch and, as \<open>overall\<close>, the mean of all rows of that
  bucket, for every granularity and both values of \<open>splitByStation\<close>; and every bucket of
  the batch has its point.
\<close>

lemma temporal_overall_mean:
  assumes "\<forall>r \<in> set rs. (if split then station_code r else variable_code r) \<noteq> ''overall''
             \<and> (if split then station_code r else variable_code r) \<noteq> ''bucket''"
  shows "\<forall>p \<in> set (points (computeTemporalSeries ts rs g split)).
           \<exists>b \<in> (\<lambda>r. getBucketKey (observed_at r) g) ` set rs.
             bucket p = JStr b
             \<and> overall p = fmean (map row_value (filter (\<lambda>r. getBucketKey (observed_at r) g = b) rs))"
    and "\<forall>b \<in> (\<lambda>r. getBucketKey (observed_at r) g) ` set rs.
           \<exists>p \<in> set (points (computeTemporalSeries ts rs g split)). bucket p = JStr b"
proof -
  define bm where "bm = fst (foldl (temporal_row g split) ([], []) rs)"
  have no_overall: "\<forall>r \<in> set rs. (if split then station_code r else variable_code r) \<noteq> ''overall''"
    using assms by simp
  note F = temporal_fold [OF no_overall, of g, folded bm_def]
  have dist: "distinct (map fst bm)"
    and dom: "fst ` set bm = (\<lambda>r. getBucketKey (observed_at r) g) ` set rs"
    using F by simp_all
  have pt: "bucket (make_point e) = JStr (fst e)
      \<and> overall (make_point e) = fmean (map row_value (filter (\<lambda>r. getBucketKey (observed_at r) g = fst e) rs))"
    if e: "e \<in> set bm" for e
  proof -
    have look: "map_of bm (fst e) = Some (snd e)" using dist e by simp
    have d: "distinct (map fst (snd e))"
      and k: "fst ` set (snd e) \<subseteq> insert ''overall''
          ((\<lambda>r. if split then station_code r else variable_code r) ` set rs)"
      and o: "map_of (snd e) ''overall''
          = Some \<lparr>sum_acc = fsum (map row_value (filter (\<lambda>r. getBucketKey (observed_at r) g = fst e) rs)),
                  count_acc = length (filter (\<lambda>r. getBucketKey (observed_at r) g = fst e) rs)\<rparr>"
      using F look by blast+
    have nb: "''bucket'' \<notin> fst ` set (snd e)"
    proof
      assume "''bucket'' \<in> fst ` set (snd e)"
      then have "''bucket'' \<in> insert ''overall''
          ((\<lambda>r. if split then station_code r else variable_code r) ` set rs)"
        using k by blast
      then have "''bucket'' \<in> (\<lambda>r. if split then station_code r else variable_code r) ` set rs"
        by simp
      then obtain r where r: "r \<in> set rs"
        and eq: "''bucket'' = (if split then station_code r else variable_code r)"
        by (rule imageE)
      have "(if split then station_code r else variable_code r) \<noteq> ''bucket''"
        using assms r by blast
      then show False using eq by simp
    qed
    have b: "bucket (make_point e) = JStr (fst e)"
      unfolding make_point_def using point_assign_bucket [OF nb] by simp
    have "overall (make_point e) = average
        \<lparr>sum_acc = fsum (map row_value (filter (\<lambda>r. getBucketKey (observed_at r) g = fst e) rs)),
         count_acc = length (filter (\<lambda>r. getBucketKey (observed_at r) g = fst e) rs)\<rparr>"
      unfolding make_point_def using point_assign_overall [OF d] o by simp
    then show ?thesis using b by (simp add: average_def fmean_def)
  qed
  show "\<forall>p \<in> set (points (computeTemporalSeries ts rs g split)).
           \<exists>b \<in> (\<lambda>r. getBucketKey (observed_at r) g) ` set rs.
             bucket p = JStr b
             \<and> overall p = fmean (map row_value (filter (\<lambda>r. getBucketKey (observed_at r) g = b) rs))"
  proof
    fix p
    assume "p \<in> set (points (computeTemporalSeries ts rs g split))"
    then obtain e where e: "e \<in> set bm" and p: "p = make_point e"
      unfolding computeTemporalSeries_points bm_def by blast
    have "fst e \<in> (\<lambda>r. getBucketKey (observed_at r) g) ` set rs"
      using e dom by (metis image_eqI)
    then show "\<exists>b \<in> (\<lambda>r. getBucketKey (observed_at r) g) ` set rs.
             bucket p = JStr b
             \<and> overall p = fmean (map row_value (filter (\<lambda>r. getBucketKey (observed_at r) g = b) rs))"
      using pt [OF e] p by blast
  qed
  show "\<forall>b \<in> (\<lambda>r. getBucketKey (observed_at r) g) ` set rs.
           \<exists>p \<in> set (points (computeTemporalSeries ts rs g split)). bucket p = JStr b"
  proof
    fix b
    assume "b \<in> (\<lambda>r. getBucketKey (observed_at r) g) ` set rs"
    then have "b \<in> fst ` set bm" by (simp only: dom)
    then obtain e where e: "e \<in> set bm" and b: "b = fst e" by blast
    have "make_point e \<in> set (points (computeTemporalSeries ts rs g split))"
      unfolding computeTemporalSeries_points bm_def [symmetric] using e by (rule imageI)
    then show "\<exists>p \<in> set (points (computeTemporalSeries ts rs g split)). bucket p = JStr b"
      using pt [OF e] b by blast
  qed
qed

lemma overall_buckets:
  "map (\<lambda>r. getBucketKey (observed_at r) Day) overall_batch = [''2024-01-01'', ''2024-01-01'']"
  by code_simp

lemma overall_batch_mean: "fmean (map row_value overall_batch) = 25"
  by code_simp

text \<open>
  Claim C2 says that \<open>overall\<close> is the mean of all rows of the bucket, whichever series keys
  occur.  A station whose code is the string \<^verbatim>\<open>overall\<close> shares its accumulator with the
  reserved key, and its rows are added twice: for the two rows of one day with the values
  10 (station \<^verbatim>\<open>overall\<close>) and 40 (station \<^verbatim>\<open>S1\<close>), split by station, the only point has
  \<open>overall = (10 + 10 + 40) / 3 = 20\<close>, and the mean of the two rows is 25.
\<close>

theorem temporal_overall_collision:
  "map (\<lambda>r. getBucketKey (observed_at r) Day) overall_batch = [''2024-01-01'', ''2024-01-01'']
   \<and> fmean (map row_value overall_batch) = 25
   \<and> points (computeTemporalSeries sample_toString overall_batch Day True)
       = [\<lparr>bucket = JStr ''2024-01-01'', overall = 20, series = [(''S1'', 40)]\<rparr>]"
  using overall_buckets overall_batch_mean overall_points by simp

end
